theory Spec2Isabelle
  imports Main "HOL-Library.Word" "HOL-Library.Signed_Division"
begin

section \<open>Machine integers of the source\<close>

text \<open>
  The source computes in \<open>int\<close> (32 bits, two's complement) and \<open>int64_t\<close>.  Both are
  modelled as words whose arithmetic wraps around; \<open>sint\<close> reads the signed value.
  C++ leaves signed overflow undefined; the model gives it the wrap-around value of the
  usual two's-complement targets.  Every theorem below that states what the program
  returns is on inputs where no operation overflows, and so does not depend on that
  choice; a theorem that speaks of "no overflow" compares the word result with the same
  expression evaluated over the unbounded integers.
\<close>

type_synonym int32 = "32 word"
type_synonym int64 = "64 word"

text \<open>The operator \<open>/\<close> on \<open>int64_t\<close>: the quotient is truncated towards zero.\<close>

definition sdiv64 :: "int64 \<Rightarrow> int64 \<Rightarrow> int64" where
  "sdiv64 a b = word_of_int (sint a sdiv sint b)"

section \<open>The program\<close>

definition kDigits :: int32 where
  "kDigits = 6"

definition kBase :: int32 where
  "kBase = 13"

definition kMaxSum :: int32 where
  "kMaxSum = (kBase - 1) * kDigits"

text \<open>
  \<open>binomial_n_5\<close>: the guard \<open>n_ < 5\<close> is a signed comparison on \<open>int\<close>; the argument
  is then widened to \<open>int64_t\<close> and the five factors are multiplied from the left.
\<close>

definition binomial_n_5 :: "int32 \<Rightarrow> int64" where
  "binomial_n_5 n =
     (if n <s 5 then 0
      else let m = (scast n :: int64)
           in sdiv64 (m * (m - 1) * (m - 2) * (m - 3) * (m - 4)) 120)"

definition kBinom6 :: "int64 list" where
  "kBinom6 = [1, 6, 15, 20, 15, 6, 1]"

text \<open>
  The loop of \<open>ways_for_sum\<close>.  Its state is the counter \<open>k\<close>, the \<open>sign\<close> and the
  accumulated \<open>result\<close>; \<open>break\<close> returns the result accumulated so far.
\<close>

function ways_loop :: "int32 \<Rightarrow> int32 \<Rightarrow> int32 \<Rightarrow> int64 \<Rightarrow> int64" where
  "ways_loop sm k sign result =
     (if k \<le>s kDigits then
        (let arg = sm - kBase * k + 5
         in if arg <s 5 then result
            else ways_loop sm (k + 1) (- sign)
                   (result + scast sign * (kBinom6 ! unat k) * binomial_n_5 arg))
      else result)"
  by pat_completeness auto

termination ways_loop
proof (relation "measure (\<lambda>(sm, k, sign, result). nat (7 - sint k))")
  show "wf (measure (\<lambda>(sm, k, sign, result). nat (7 - sint k)))"
    by simp
next
  fix sm k sign :: int32 and result :: int64 and arg :: int32
  assume "k \<le>s kDigits"
  then have hi: "sint k \<le> 6"
    by (simp add: word_sle_eq kDigits_def)
  have lo: "- (2 ^ 31) \<le> sint k"
    using sint_ge [of k] by simp
  have "sint (k + 1) = signed_take_bit 31 (sint k + 1)"
    by (simp add: sint_word_ariths)
  also have "\<dots> = sint k + 1"
    using lo hi by (intro signed_take_bit_int_eq_self) simp_all
  finally show "((sm, k + 1, - sign,
                result + scast sign * (kBinom6 ! unat k) * binomial_n_5 arg),
              (sm, k, sign, result))
             \<in> measure (\<lambda>(sm, k, sign, result). nat (7 - sint k))"
    using hi by simp
qed

declare ways_loop.simps [simp del]

definition ways_for_sum :: "int32 \<Rightarrow> int64" where
  "ways_for_sum sm = ways_loop sm 0 1 0"

text \<open>
  \<open>build_ways_lookup_table\<close>: a zero-initialised array of \<open>kMaxSum + 1\<close> entries, filled
  by the loop over \<open>s\<close>.
\<close>

function build_loop :: "int32 \<Rightarrow> int64 list \<Rightarrow> int64 list" where
  "build_loop s table =
     (if s \<le>s kMaxSum then build_loop (s + 1) (table[unat s := ways_for_sum s])
      else table)"
  by pat_completeness auto

termination build_loop
proof (relation "measure (\<lambda>(s, table). nat (73 - sint s))")
  show "wf (measure (\<lambda>(s, table). nat (73 - sint s)))"
    by simp
next
  fix s :: int32 and table :: "int64 list"
  assume "s \<le>s kMaxSum"
  then have hi: "sint s \<le> 72"
    by (simp add: word_sle_eq kMaxSum_def kBase_def kDigits_def)
  have lo: "- (2 ^ 31) \<le> sint s"
    using sint_ge [of s] by simp
  have "sint (s + 1) = signed_take_bit 31 (sint s + 1)"
    by (simp add: sint_word_ariths)
  also have "\<dots> = sint s + 1"
    using lo hi by (intro signed_take_bit_int_eq_self) simp_all
  finally show "((s + 1, table[unat s := ways_for_sum s]), (s, table))
             \<in> measure (\<lambda>(s, table). nat (73 - sint s))"
    using hi by simp
qed

declare build_loop.simps [simp del]

definition build_ways_lookup_table :: "int64 list" where
  "build_ways_lookup_table = build_loop 0 (replicate (unat (kMaxSum + 1)) 0)"

definition kWays :: "int64 list" where
  "kWays = build_ways_lookup_table"

text \<open>\<open>count_beautiful_numbers\<close>: \<open>kBase\<close> is widened to \<open>int64_t\<close> before the product.\<close>

function count_loop :: "int32 \<Rightarrow> int64 \<Rightarrow> int64" where
  "count_loop s tot =
     (if s \<le>s kMaxSum
      then count_loop (s + 1) (tot + scast kBase * (kWays ! unat s) * (kWays ! unat s))
      else tot)"
  by pat_completeness auto

termination count_loop
proof (relation "measure (\<lambda>(s, tot). nat (73 - sint s))")
  show "wf (measure (\<lambda>(s, tot). nat (73 - sint s)))"
    by simp
next
  fix s :: int32 and tot :: int64
  assume "s \<le>s kMaxSum"
  then have hi: "sint s \<le> 72"
    by (simp add: word_sle_eq kMaxSum_def kBase_def kDigits_def)
  have lo: "- (2 ^ 31) \<le> sint s"
    using sint_ge [of s] by simp
  have "sint (s + 1) = signed_take_bit 31 (sint s + 1)"
    by (simp add: sint_word_ariths)
  also have "\<dots> = sint s + 1"
    using lo hi by (intro signed_take_bit_int_eq_self) simp_all
  finally show "((s + 1, tot + scast kBase * (kWays ! unat s) * (kWays ! unat s)), (s, tot))
             \<in> measure (\<lambda>(s, tot). nat (73 - sint s))"
    using hi by simp
qed

declare count_loop.simps [simp del]

definition count_beautiful_numbers :: int64 where
  "count_beautiful_numbers = count_loop 0 0"

section \<open>The same program over the unbounded integers\<close>

text \<open>
  The exact counterpart of each function: the same statements in the same order, with
  every \<open>int\<close> and \<open>int64_t\<close> replaced by a mathematical integer.  The theorems on
  overflow compare the words above with these values.
\<close>

definition binomial_n_5_exact :: "int \<Rightarrow> int" where
  "binomial_n_5_exact n =
     (if n < 5 then 0
      else (n * (n - 1) * (n - 2) * (n - 3) * (n - 4)) sdiv 120)"

definition kBinom6_exact :: "int list" where
  "kBinom6_exact = [1, 6, 15, 20, 15, 6, 1]"

function ways_loop_exact :: "int \<Rightarrow> int \<Rightarrow> int \<Rightarrow> int \<Rightarrow> int" where
  "ways_loop_exact sm k sign result =
     (if k \<le> 6 then
        (let arg = sm - 13 * k + 5
         in if arg < 5 then result
            else ways_loop_exact sm (k + 1) (- sign)
                   (result + sign * (kBinom6_exact ! nat k) * binomial_n_5_exact arg))
      else result)"
  by pat_completeness auto

termination ways_loop_exact
  by (relation "measure (\<lambda>(sm, k, sign, result). nat (7 - k))") auto

declare ways_loop_exact.simps [simp del]

definition ways_for_sum_exact :: "int \<Rightarrow> int" where
  "ways_for_sum_exact sm = ways_loop_exact sm 0 1 0"

text \<open>The running total of \<open>count_beautiful_numbers\<close> after the iterations \<open>s = 0, ..., j - 1\<close>.\<close>

definition partial_total_exact :: "nat \<Rightarrow> int" where
  "partial_total_exact j =
     (\<Sum>s\<leftarrow>[0..<j]. 13 * ways_for_sum_exact (int s) * ways_for_sum_exact (int s))"

definition count_beautiful_numbers_exact :: int where
  "count_beautiful_numbers_exact = partial_total_exact 73"

section \<open>The inclusion-exclusion sum with all seven terms\<close>

text \<open>
  The formula of the specification,
  \<open>N(S) = \<Sum>k=0..6. (-1)^k * C(6,k) * C(S - 13k + 5, 5)\<close>, with no early exit; the inner
  binomial is the program's \<open>binomial_n_5\<close>.
\<close>

definition ways_full :: "int32 \<Rightarrow> int64" where
  "ways_full sm =
     (\<Sum>k\<leftarrow>[0..<7]. (- 1) ^ k * of_nat (6 choose k) * binomial_n_5 (sm - 13 * of_nat k + 5))"

section \<open>Words and exact integers agree while nothing overflows\<close>

lemma prod5_bound:
  fixes m :: int
  assumes "5 \<le> m" "m \<le> 6210"
  shows "0 \<le> m * (m - 1) * (m - 2) * (m - 3) * (m - 4)"
    and "m * (m - 1) * (m - 2) * (m - 3) * (m - 4) < 2 ^ 63"
proof -
  have a: "m * (m - 1) \<le> 6210 * 6209" using assms by (intro mult_mono) simp_all
  have b: "m * (m - 1) * (m - 2) \<le> 6210 * 6209 * 6208" using assms a by (intro mult_mono) simp_all
  have c: "m * (m - 1) * (m - 2) * (m - 3) \<le> 6210 * 6209 * 6208 * 6207" using assms b by (intro mult_mono) simp_all
  have d: "m * (m - 1) * (m - 2) * (m - 3) * (m - 4) \<le> 6210 * 6209 * 6208 * 6207 * 6206" using assms c by (intro mult_mono) simp_all
  show "0 \<le> m * (m - 1) * (m - 2) * (m - 3) * (m - 4)" using assms by simp
  show "m * (m - 1) * (m - 2) * (m - 3) * (m - 4) < 2 ^ 63" using d by simp
qed

lemma sint_of_int64:
  fixes x :: int
  assumes "- (2 ^ 63) \<le> x" "x < 2 ^ 63"
  shows "sint (word_of_int x :: int64) = x"
  using assms by (simp add: sint_sbintrunc' signed_take_bit_int_eq_self)

lemma sdiv_nonneg:
  fixes a b :: int
  assumes "0 \<le> a" "0 < b"
  shows "a sdiv b = a div b"
  using assms by (simp add: signed_divide_int_def sgn_if)

lemma binomial_bridge:
  fixes n :: int32
  assumes "sint n \<le> 6210"
  shows "binomial_n_5 n = word_of_int (binomial_n_5_exact (sint n))"
proof (cases "sint n < 5")
  case True
  then show ?thesis by (simp add: binomial_n_5_def binomial_n_5_exact_def word_sless_alt)
next
  case False
  then have ge: "5 \<le> sint n" by simp
  let ?m = "sint n"
  let ?p = "?m * (?m - 1) * (?m - 2) * (?m - 3) * (?m - 4)"
  have sc: "(scast n :: int64) = word_of_int ?m" by (rule scast_eq)
  have pw: "(word_of_int ?m :: int64) * (word_of_int ?m - 1) * (word_of_int ?m - 2) * (word_of_int ?m - 3) * (word_of_int ?m - 4)
      = word_of_int ?p"
    by (simp del: of_int_sint)
  have sp: "sint (word_of_int ?p :: int64) = ?p"
    using prod5_bound [OF ge assms] by (intro sint_of_int64) simp_all
  have "binomial_n_5 n = sdiv64 (word_of_int ?p) 120"
    using False unfolding binomial_n_5_def Let_def sc pw by (simp only: word_sless_alt sint_sbintrunc) simp
  also have "\<dots> = word_of_int (?p sdiv 120)"
    unfolding sdiv64_def sp by simp
  also have "?p sdiv 120 = binomial_n_5_exact ?m"
    using False unfolding binomial_n_5_exact_def by simp
  finally show ?thesis .
qed

lemma sint_of_int32:
  fixes x :: int
  assumes "- (2 ^ 31) \<le> x" "x < 2 ^ 31"
  shows "sint (word_of_int x :: int32) = x"
  using assms by (simp add: sint_sbintrunc' signed_take_bit_int_eq_self)

lemma unat_nonneg_int32:
  fixes k :: int32
  assumes "0 \<le> sint k"
  shows "unat k = nat (sint k)"
proof -
  have "sint k < 2 ^ 32"
    using sint_lt [of k] by simp
  then have "uint k = sint k"
    using assms by (simp add: uint_sint take_bit_int_eq_self)
  then show ?thesis
    by (simp add: unat_eq_nat_uint)
qed

lemma kBinom6_bridge:
  fixes k :: int32
  assumes "0 \<le> sint k" "sint k \<le> 6"
  shows "kBinom6 ! unat k = word_of_int (kBinom6_exact ! nat (sint k))"
proof -
  have m: "kBinom6 = map word_of_int kBinom6_exact"
    by (simp add: kBinom6_def kBinom6_exact_def)
  have "nat (sint k) < length kBinom6_exact"
    using assms by (simp add: kBinom6_exact_def)
  then show ?thesis
    unfolding m unat_nonneg_int32 [OF assms(1)] by (rule nth_map)
qed

lemma arg_sint:
  fixes sm k :: int32
  assumes "0 \<le> sint sm" "sint sm \<le> 6205" "0 \<le> sint k" "sint k \<le> 6"
  shows "sint (sm - kBase * k + 5) = sint sm - 13 * sint k + 5"
proof -
  have "sm - kBase * k + 5 = word_of_int (sint sm - 13 * sint k + 5)"
    by (simp add: kBase_def)
  moreover have "sint (word_of_int (sint sm - 13 * sint k + 5) :: int32) = sint sm - 13 * sint k + 5"
    using assms by (intro sint_of_int32) simp_all
  ultimately show ?thesis by simp
qed

lemma ways_loop_bridge:
  fixes sm k sign :: int32 and R :: int
  assumes "0 \<le> sint sm" "sint sm \<le> 6205" "0 \<le> sint k" "sint k \<le> 7" "sign = 1 \<or> sign = - 1"
  shows "ways_loop sm k sign (word_of_int R)
           = word_of_int (ways_loop_exact (sint sm) (sint k) (sint sign) R)"
  using assms(3-5)
proof (induction "nat (7 - sint k)" arbitrary: k sign R)
  case 0
  then have "sint k = 7" by simp
  then have "\<not> k \<le>s kDigits" by (simp add: word_sle_eq kDigits_def)
  then show ?case
    using \<open>sint k = 7\<close> by (simp add: ways_loop.simps [of sm k] ways_loop_exact.simps [of _ 7])
next
  case (Suc j)
  then have k6: "sint k \<le> 6" by simp
  have k0: "0 \<le> sint k" by (rule Suc.prems(1))
  have le: "k \<le>s kDigits" using k6 by (simp add: word_sle_eq kDigits_def)
  let ?arg = "sm - kBase * k + 5"
  let ?a = "sint sm - 13 * sint k + 5"
  have sa: "sint ?arg = ?a"
    using assms(1,2) k0 k6 by (rule arg_sint)
  show ?case
  proof (cases "?a < 5")
    case True
    then have "?arg <s 5" by (simp add: word_sless_alt sa)
    then show ?thesis
      using le True k6
      by (simp add: ways_loop.simps [of sm k] ways_loop_exact.simps [of _ "sint k"] Let_def)
  next
    case False
    then have nb: "\<not> ?arg <s 5" by (simp add: word_sless_alt sa)
    have sk: "sint (k + 1) = sint k + 1"
    proof -
      have "k + 1 = word_of_int (sint k + 1)" by simp
      moreover have "sint (word_of_int (sint k + 1) :: int32) = sint k + 1"
        using k0 k6 by (intro sint_of_int32) simp_all
      ultimately show ?thesis by simp
    qed
    have ss: "sint (- sign) = - sint sign" "- sign = 1 \<or> - sign = - 1"
      using Suc.prems(3) by auto
    have bn: "binomial_n_5 ?arg = word_of_int (binomial_n_5_exact ?a)"
      using binomial_bridge [of ?arg] assms(2) k0 unfolding sa by simp
    have acc: "word_of_int R + scast sign * (kBinom6 ! unat k) * binomial_n_5 ?arg
        = word_of_int (R + sint sign * (kBinom6_exact ! nat (sint k)) * binomial_n_5_exact ?a)"
      unfolding bn kBinom6_bridge [OF k0 k6] scast_eq by simp
    have j: "j = nat (7 - sint (k + 1))"
      using Suc.hyps(2) sk by simp
    have ih: "ways_loop sm (k + 1) (- sign)
                (word_of_int (R + sint sign * (kBinom6_exact ! nat (sint k)) * binomial_n_5_exact ?a))
              = word_of_int (ways_loop_exact (sint sm) (sint (k + 1)) (sint (- sign))
                  (R + sint sign * (kBinom6_exact ! nat (sint k)) * binomial_n_5_exact ?a))"
      using k0 k6 sk ss(2) by (intro Suc.hyps(1) [OF j]) simp_all
    have "ways_loop sm k sign (word_of_int R)
            = ways_loop sm (k + 1) (- sign)
                (word_of_int R + scast sign * (kBinom6 ! unat k) * binomial_n_5 ?arg)"
      using le nb by (simp add: ways_loop.simps [of sm k] Let_def)
    also have "\<dots> = word_of_int (ways_loop_exact (sint sm) (sint k + 1) (- sint sign)
                  (R + sint sign * (kBinom6_exact ! nat (sint k)) * binomial_n_5_exact ?a))"
      unfolding acc ih sk ss(1) ..
    also have "ways_loop_exact (sint sm) (sint k + 1) (- sint sign)
                  (R + sint sign * (kBinom6_exact ! nat (sint k)) * binomial_n_5_exact ?a)
               = ways_loop_exact (sint sm) (sint k) (sint sign) R"
      using k6 False by (simp add: ways_loop_exact.simps [of _ "sint k"] Let_def)
    finally show ?thesis .
  qed
qed

section \<open>Five consecutive integers\<close>

lemma product_chain:
  fixes A B C D E c5 c4 c3 c2 :: nat
  assumes "5 * c5 = A * c4" "4 * c4 = B * c3" "3 * c3 = C * c2" "2 * c2 = D * E"
  shows "A * B * C * D * E = 120 * c5"
proof -
  have "120 * c5 = 24 * (5 * c5)" by simp
  also have "\<dots> = 24 * (A * c4)" by (simp only: assms)
  also have "\<dots> = A * 6 * (4 * c4)" by simp
  also have "\<dots> = A * 6 * (B * c3)" by (simp only: assms)
  also have "\<dots> = A * B * 2 * (3 * c3)" by simp
  also have "\<dots> = A * B * 2 * (C * c2)" by (simp only: assms)
  also have "\<dots> = A * B * C * (2 * c2)" by simp
  also have "\<dots> = A * B * C * (D * E)" by (simp only: assms)
  finally show ?thesis by simp
qed

lemma five_consecutive_nat:
  fixes m :: nat
  shows "(m + 5) * (m + 4) * (m + 3) * (m + 2) * (m + 1) = 120 * ((m + 5) choose 5)"
proof -
  have a5: "5 * ((m + 5) choose 5) = (m + 5) * ((m + 4) choose 4)"
    using times_binomial_minus1_eq [of 5 "m + 5"] by (simp add: ac_simps)
  have a4: "4 * ((m + 4) choose 4) = (m + 4) * ((m + 3) choose 3)"
    using times_binomial_minus1_eq [of 4 "m + 4"] by (simp add: ac_simps)
  have a3: "3 * ((m + 3) choose 3) = (m + 3) * ((m + 2) choose 2)"
    using times_binomial_minus1_eq [of 3 "m + 3"] by (simp add: ac_simps)
  have a2: "2 * ((m + 2) choose 2) = (m + 2) * (m + 1)"
    using times_binomial_minus1_eq [of 2 "m + 2"] by (simp add: ac_simps)
  show ?thesis
    using a5 a4 a3 a2 by (rule product_chain)
qed

lemma five_consecutive_int:
  fixes n :: int
  assumes "5 \<le> n"
  shows "n * (n - 1) * (n - 2) * (n - 3) * (n - 4) = 120 * int (nat n choose 5)"
proof -
  define m where "m = nat (n - 5)"
  have e: "int (m + 5) = n" "int (m + 4) = n - 1" "int (m + 3) = n - 2"
    "int (m + 2) = n - 3" "int (m + 1) = n - 4"
    using assms by (simp_all add: m_def)
  have nn: "m + 5 = nat n"
    using assms by (simp add: m_def)
  have "n * (n - 1) * (n - 2) * (n - 3) * (n - 4)
      = int (m + 5) * int (m + 4) * int (m + 3) * int (m + 2) * int (m + 1)"
    unfolding e ..
  also have "\<dots> = int ((m + 5) * (m + 4) * (m + 3) * (m + 2) * (m + 1))"
    by (simp only: of_nat_mult)
  also have "\<dots> = int (120 * ((m + 5) choose 5))"
    by (simp only: five_consecutive_nat)
  also have "\<dots> = 120 * int (nat n choose 5)"
    unfolding nn by simp
  finally show ?thesis .
qed

lemma binomial_exact_choose:
  fixes n :: int
  assumes "5 \<le> n"
  shows "binomial_n_5_exact n = int (nat n choose 5)"
proof -
  have "n * (n - 1) * (n - 2) * (n - 3) * (n - 4) sdiv 120 = (120 * int (nat n choose 5)) sdiv 120"
    by (simp only: five_consecutive_int [OF assms])
  also have "\<dots> = (120 * int (nat n choose 5)) div 120"
    by (intro sdiv_nonneg) simp_all
  also have "\<dots> = int (nat n choose 5)" by simp
  finally show ?thesis using assms by (simp add: binomial_n_5_exact_def)
qed

lemma binomial_exact_times_120:
  fixes n :: int
  assumes "5 \<le> n"
  shows "120 * binomial_n_5_exact n = n * (n - 1) * (n - 2) * (n - 3) * (n - 4)"
  by (simp only: binomial_exact_choose [OF assms] five_consecutive_int [OF assms])

lemma ways_exact_unrolled:
  fixes S :: int
  assumes "78 \<le> S"
  shows "ways_for_sum_exact S =
           binomial_n_5_exact (S + 5) - 6 * binomial_n_5_exact (S - 8)
           + 15 * binomial_n_5_exact (S - 21) - 20 * binomial_n_5_exact (S - 34)
           + 15 * binomial_n_5_exact (S - 47) - 6 * binomial_n_5_exact (S - 60)
           + binomial_n_5_exact (S - 73)"
  using assms
  by (simp add: ways_for_sum_exact_def kBinom6_exact_def Let_def
        ways_loop_exact.simps [of _ 0] ways_loop_exact.simps [of _ 1]
        ways_loop_exact.simps [of _ 2] ways_loop_exact.simps [of _ 3]
        ways_loop_exact.simps [of _ 4] ways_loop_exact.simps [of _ 5]
        ways_loop_exact.simps [of _ 6] ways_loop_exact.simps [of _ 7])

lemma ways_exact_large:
  fixes S :: int
  assumes "78 \<le> S"
  shows "ways_for_sum_exact S = 0"
proof -
  have b: "120 * binomial_n_5_exact (S + 5) = (S + 5) * (S + 5 - 1) * (S + 5 - 2) * (S + 5 - 3) * (S + 5 - 4)"
    "120 * binomial_n_5_exact (S - 8) = (S - 8) * (S - 8 - 1) * (S - 8 - 2) * (S - 8 - 3) * (S - 8 - 4)"
    "120 * binomial_n_5_exact (S - 21) = (S - 21) * (S - 21 - 1) * (S - 21 - 2) * (S - 21 - 3) * (S - 21 - 4)"
    "120 * binomial_n_5_exact (S - 34) = (S - 34) * (S - 34 - 1) * (S - 34 - 2) * (S - 34 - 3) * (S - 34 - 4)"
    "120 * binomial_n_5_exact (S - 47) = (S - 47) * (S - 47 - 1) * (S - 47 - 2) * (S - 47 - 3) * (S - 47 - 4)"
    "120 * binomial_n_5_exact (S - 60) = (S - 60) * (S - 60 - 1) * (S - 60 - 2) * (S - 60 - 3) * (S - 60 - 4)"
    "120 * binomial_n_5_exact (S - 73) = (S - 73) * (S - 73 - 1) * (S - 73 - 2) * (S - 73 - 3) * (S - 73 - 4)"
    using assms by (simp_all only: binomial_exact_times_120)
  have "120 * ways_for_sum_exact S =
          120 * binomial_n_5_exact (S + 5) - 6 * (120 * binomial_n_5_exact (S - 8))
           + 15 * (120 * binomial_n_5_exact (S - 21)) - 20 * (120 * binomial_n_5_exact (S - 34))
           + 15 * (120 * binomial_n_5_exact (S - 47)) - 6 * (120 * binomial_n_5_exact (S - 60))
           + 120 * binomial_n_5_exact (S - 73)"
    unfolding ways_exact_unrolled [OF assms] by simp
  also have "\<dots> = 0"
    unfolding b by algebra
  finally show ?thesis by simp
qed

section \<open>The helper \<open>binomial_n_5\<close>\<close>

lemma binomial_sint:
  fixes n :: int32
  assumes "5 \<le> sint n" "sint n \<le> 6210"
  shows "sint (binomial_n_5 n) = binomial_n_5_exact (sint n)"
proof -
  let ?m = "sint n"
  let ?p = "?m * (?m - 1) * (?m - 2) * (?m - 3) * (?m - 4)"
  have t: "120 * binomial_n_5_exact ?m = ?p"
    using assms(1) by (rule binomial_exact_times_120)
  have c: "binomial_n_5_exact ?m = int (nat ?m choose 5)"
    using assms(1) by (rule binomial_exact_choose)
  have "0 \<le> binomial_n_5_exact ?m" unfolding c by simp
  moreover have "binomial_n_5_exact ?m < 2 ^ 63"
    using prod5_bound [OF assms] t \<open>0 \<le> binomial_n_5_exact ?m\<close> by simp
  ultimately have "sint (word_of_int (binomial_n_5_exact ?m) :: int64) = binomial_n_5_exact ?m"
    by (intro sint_of_int64) simp_all
  then show ?thesis
    by (simp only: binomial_bridge [OF assms(2)])
qed

text \<open>
  Claim C6, with the bound the width of \<open>int64_t\<close> forces: \<open>binomial_n_5\<close> returns 0
  for every \<open>n < 5\<close>, negative \<open>n\<close> included, and for every \<open>n\<close> from 5 to 6210 it
  returns \<open>n * (n - 1) * (n - 2) * (n - 3) * (n - 4) / 120\<close>, which is the binomial
  coefficient \<open>C(n, 5)\<close>.  6210 is the largest \<open>n\<close> whose product of five factors fits
  into 63 bits.
\<close>

theorem binomial_n_5_contract:
  fixes n :: int32
  shows "(sint n < 5 \<longrightarrow> binomial_n_5 n = 0) \<and>
         (5 \<le> sint n \<and> sint n \<le> 6210 \<longrightarrow>
            sint (binomial_n_5 n)
              = (sint n * (sint n - 1) * (sint n - 2) * (sint n - 3) * (sint n - 4)) div 120
            \<and> sint (binomial_n_5 n) = int (nat (sint n) choose 5))"
proof (intro conjI impI)
  assume "sint n < 5"
  then show "binomial_n_5 n = 0"
    by (simp add: binomial_n_5_def word_sless_alt)
next
  assume r: "5 \<le> sint n \<and> sint n \<le> 6210"
  then have s: "sint (binomial_n_5 n) = binomial_n_5_exact (sint n)"
    by (intro binomial_sint) simp_all
  have t: "120 * binomial_n_5_exact (sint n)
             = sint n * (sint n - 1) * (sint n - 2) * (sint n - 3) * (sint n - 4)"
    using r by (intro binomial_exact_times_120) simp
  show "sint (binomial_n_5 n)
          = (sint n * (sint n - 1) * (sint n - 2) * (sint n - 3) * (sint n - 4)) div 120"
    unfolding s t [symmetric] by simp
  show "sint (binomial_n_5 n) = int (nat (sint n) choose 5)"
    unfolding s using r by (intro binomial_exact_choose) simp
qed

theorem binomial_n_5_contract_witness:
  "sint (3 :: int32) < 5 \<and> binomial_n_5 3 = 0 \<and>
   5 \<le> sint (7 :: int32) \<and> sint (7 :: int32) \<le> 6210 \<and> sint (binomial_n_5 7) = 21"
  using binomial_n_5_contract [of 3] binomial_n_5_contract [of 7] by simp

text \<open>
  At \<open>n = 6211\<close> the product \<open>6211 * 6210 * 6209 * 6208 * 6207\<close> exceeds \<open>2^63 - 1\<close>;
  the wrapped product is negative, and so is the value returned, while
  \<open>C(6211, 5)\<close> is positive.
\<close>

theorem binomial_n_5_overflow_counterexample:
  "5 \<le> sint (6211 :: int32) \<and>
   2 ^ 63 - 1 < (6211 * 6210 * 6209 * 6208 * 6207 :: int) \<and>
   sint (binomial_n_5 6211) = - 76822750936961778 \<and>
   (6211 * 6210 * 6209 * 6208 * 6207) div 120 = (76900116343951152 :: int) \<and>
   int (6211 choose 5) = 76900116343951152"
proof -
  have "120 * int (nat 6211 choose 5) = 6211 * 6210 * 6209 * 6208 * 6207"
    using five_consecutive_int [of 6211] by simp
  then have "int (6211 choose 5) = 76900116343951152"
    by simp
  moreover have "sint (binomial_n_5 6211) = - 76822750936961778"
    by (simp add: binomial_n_5_def sdiv64_def word_sless_alt signed_divide_int_def)
  ultimately show ?thesis
    by simp
qed

text \<open>
  Claim C10, with the same bound: for every \<open>n\<close> from 5 to 6210 the product that
  \<open>binomial_n_5\<close> forms in \<open>int64_t\<close> is the true product of the five consecutive
  integers, that product is divisible by 120, so the truncating division loses nothing
  (quotient times 120 gives the product back), and the result is \<open>C(n, 5)\<close>.
\<close>

theorem binomial_n_5_division_exact:
  fixes n :: int32
  assumes "5 \<le> sint n" "sint n \<le> 6210"
  shows "sint ((scast n :: int64) * (scast n - 1) * (scast n - 2) * (scast n - 3) * (scast n - 4))
           = sint n * (sint n - 1) * (sint n - 2) * (sint n - 3) * (sint n - 4)
         \<and> 120 dvd sint n * (sint n - 1) * (sint n - 2) * (sint n - 3) * (sint n - 4)
         \<and> sint (binomial_n_5 n) * 120
           = sint n * (sint n - 1) * (sint n - 2) * (sint n - 3) * (sint n - 4)
         \<and> sint (binomial_n_5 n) = int (nat (sint n) choose 5)"
proof -
  let ?m = "sint n"
  let ?p = "?m * (?m - 1) * (?m - 2) * (?m - 3) * (?m - 4)"
  have pw: "(scast n :: int64) * (scast n - 1) * (scast n - 2) * (scast n - 3) * (scast n - 4)
      = word_of_int ?p"
    unfolding scast_eq by (simp del: of_int_sint)
  have sp: "sint (word_of_int ?p :: int64) = ?p"
    using prod5_bound [OF assms] by (intro sint_of_int64) simp_all
  have s: "sint (binomial_n_5 n) = binomial_n_5_exact ?m"
    using assms by (rule binomial_sint)
  have t: "120 * binomial_n_5_exact ?m = ?p"
    using assms(1) by (rule binomial_exact_times_120)
  have c: "binomial_n_5_exact ?m = int (nat ?m choose 5)"
    using assms(1) by (rule binomial_exact_choose)
  have d: "120 dvd ?p"
    unfolding t [symmetric] by simp
  show ?thesis
    unfolding pw sp s using t c d by simp
qed

theorem binomial_n_5_division_exact_witness:
  "5 \<le> sint (77 :: int32) \<and> sint (77 :: int32) \<le> 6210 \<and>
   sint (binomial_n_5 77) * 120 = 2370937800 \<and> 120 dvd (2370937800 :: int)"
  using binomial_n_5_division_exact [of 77] by simp

text \<open>
  At \<open>n = 10000\<close> the product has wrapped around: what the function divides leaves the
  remainder 40 modulo 120, and the quotient returned is not
  \<open>10000 * 9999 * 9998 * 9997 * 9996 / 120\<close>.
\<close>

theorem binomial_n_5_division_counterexample:
  "5 \<le> sint (10000 :: int32) \<and>
   2 ^ 63 - 1 < (10000 * 9999 * 9998 * 9997 * 9996 :: int) \<and>
   sint ((10000 :: int64) * (10000 - 1) * (10000 - 2) * (10000 - 3) * (10000 - 4)) mod 120 \<noteq> 0 \<and>
   sint (binomial_n_5 10000) = 63885955220437349 \<and>
   (10000 * 9999 * 9998 * 9997 * 9996) div 120 = (832500291625002000 :: int)"
  by (simp add: binomial_n_5_def sdiv64_def word_sless_alt signed_divide_int_def)

section \<open>The counter \<open>ways_for_sum\<close>\<close>

lemma ways_bridge:
  fixes S :: int32
  assumes "0 \<le> sint S" "sint S \<le> 6205"
  shows "ways_for_sum S = word_of_int (ways_for_sum_exact (sint S))"
  using ways_loop_bridge [OF assms, of 0 1 0]
  by (simp add: ways_for_sum_def ways_for_sum_exact_def)

lemma ways_negative:
  fixes S :: int32
  assumes "sint S < 0"
  shows "ways_for_sum S = 0"
proof -
  have "S - kBase * 0 + 5 = word_of_int (sint S + 5)"
    by simp
  moreover have "sint (word_of_int (sint S + 5) :: int32) = sint S + 5"
    using assms sint_ge [of S] by (intro sint_of_int32) simp_all
  ultimately have "S - kBase * 0 + 5 <s 5"
    using assms by (simp add: word_sless_alt)
  then show ?thesis
    by (simp add: ways_for_sum_def ways_loop.simps [of S 0] Let_def)
qed

lemma ways_exact_table:
  "map ways_for_sum_exact [0..72] = [1, 6, 21, 56, 126, 252, 462, 792, 1287, 2002, 3003, 4368, 6188, 8562,
  11592, 15378, 20013, 25578, 32137, 39732, 48378, 58058, 68718, 80262,
  92547, 105378, 118518, 131698, 144627, 157002, 168518, 178878, 187803,
  195042, 200382, 203658, 204763, 203658, 200382, 195042, 187803, 178878,
  168518, 157002, 144627, 131698, 118518, 105378, 92547, 80262, 68718,
  58058, 48378, 39732, 32137, 25578, 20013, 15378, 11592, 8562, 6188, 4368,
  3003, 2002, 1287, 792, 462, 252, 126, 56, 21, 6, 1]"
  by code_simp

lemma ways_exact_range_all:
  "list_all (\<lambda>i. 0 \<le> ways_for_sum_exact i \<and> ways_for_sum_exact i \<le> 204763) [0..72]"
  by code_simp

lemma ways_exact_range:
  fixes i :: int
  assumes "0 \<le> i" "i \<le> 72"
  shows "0 \<le> ways_for_sum_exact i" "ways_for_sum_exact i \<le> 204763"
proof -
  have "i \<in> {0..72}" using assms by simp
  then have "i \<in> set [0..72]" by (simp only: set_upto)
  then have "0 \<le> ways_for_sum_exact i \<and> ways_for_sum_exact i \<le> 204763"
    using ways_exact_range_all unfolding list_all_iff by blast
  then show "0 \<le> ways_for_sum_exact i" "ways_for_sum_exact i \<le> 204763" by simp_all
qed

lemma ways_sint:
  fixes S :: int32
  assumes "0 \<le> sint S" "sint S \<le> 72"
  shows "sint (ways_for_sum S) = ways_for_sum_exact (sint S)"
proof -
  have "ways_for_sum S = word_of_int (ways_for_sum_exact (sint S))"
    using assms by (intro ways_bridge) simp_all
  moreover have "sint (word_of_int (ways_for_sum_exact (sint S)) :: int64) = ways_for_sum_exact (sint S)"
    using ways_exact_range [OF assms] by (intro sint_of_int64) simp_all
  ultimately show ?thesis by simp
qed

lemma ways_exact_73_77: "list_all (\<lambda>i. ways_for_sum_exact i = 0) [73..77]"
  by code_simp

lemma ways_exact_above:
  fixes i :: int
  assumes "72 < i"
  shows "ways_for_sum_exact i = 0"
proof (cases "78 \<le> i")
  case True
  then show ?thesis by (rule ways_exact_large)
next
  case False
  then have "i \<in> {73..77}" using assms by simp
  then have "i \<in> set [73..77]" by (simp only: set_upto)
  then show ?thesis
    using ways_exact_73_77 unfolding list_all_iff by blast
qed

text \<open>
  Claim C7, with the bound the width of \<open>int64_t\<close> forces: \<open>ways_for_sum S\<close> is not
  negative for every \<open>S\<close> from 0 to 72; it is 0 for every negative \<open>S\<close> and for every
  \<open>S\<close> above 72 up to 6205, the largest \<open>S\<close> whose first argument \<open>S + 5\<close> of
  \<open>binomial_n_5\<close> does not overflow.
\<close>

theorem ways_for_sum_sign_and_support:
  fixes S :: int32
  shows "(0 \<le> sint S \<and> sint S \<le> 72 \<longrightarrow> 0 \<le> sint (ways_for_sum S)) \<and>
         (sint S < 0 \<longrightarrow> ways_for_sum S = 0) \<and>
         (72 < sint S \<and> sint S \<le> 6205 \<longrightarrow> ways_for_sum S = 0)"
proof (intro conjI impI)
  assume "0 \<le> sint S \<and> sint S \<le> 72"
  then show "0 \<le> sint (ways_for_sum S)"
    using ways_sint [of S] ways_exact_range(1) [of "sint S"] by simp
next
  assume "sint S < 0"
  then show "ways_for_sum S = 0" by (rule ways_negative)
next
  assume r: "72 < sint S \<and> sint S \<le> 6205"
  then have "ways_for_sum S = word_of_int (ways_for_sum_exact (sint S))"
    by (intro ways_bridge) simp_all
  also have "ways_for_sum_exact (sint S) = 0"
    using r by (intro ways_exact_above) simp
  finally show "ways_for_sum S = 0" by simp
qed

theorem ways_for_sum_sign_and_support_witness:
  "0 \<le> sint (36 :: int32) \<and> sint (36 :: int32) \<le> 72 \<and> 0 \<le> sint (ways_for_sum 36) \<and>
   sint (- 1 :: int32) < 0 \<and> ways_for_sum (- 1) = 0 \<and>
   72 < sint (100 :: int32) \<and> sint (100 :: int32) \<le> 6205 \<and> ways_for_sum 100 = 0"
  using ways_for_sum_sign_and_support [of 36] ways_for_sum_sign_and_support [of "- 1"]
    ways_for_sum_sign_and_support [of 100]
  by simp

text \<open>
  At \<open>S = 6206\<close> the first term is \<open>binomial_n_5 6211\<close>, whose product exceeds
  \<open>2^63 - 1\<close> and has wrapped around, and the seven terms no longer cancel.
\<close>

theorem ways_for_sum_large_counterexample:
  "72 < sint (6206 :: int32) \<and>
   sint ((6206 :: int32) - kBase * 0 + 5) = 6211 \<and>
   2 ^ 63 - 1 < (6211 * 6210 * 6209 * 6208 * 6207 :: int) \<and>
   sint (ways_for_sum 6206) = - 153722867280912930"
proof -
  have "sint (ways_for_sum 6206) = - 153722867280912930"
    by code_simp
  then show ?thesis
    by (simp add: kBase_def)
qed

lemma upt_7: "[0..<7] = [0, 1, 2, 3, 4, 5, 6]"
  by code_simp

lemma choose_6: "map (\<lambda>k. 6 choose k) [0, 1, 2, 3, 4, 5, 6] = [1, 6, 15, 20, 15, 6, 1]"
  by code_simp

lemma ways_full_unrolled:
  "ways_full S =
     binomial_n_5 (S + 5) - 6 * binomial_n_5 (S - 8)
     + 15 * binomial_n_5 (S - 21) - 20 * binomial_n_5 (S - 34)
     + 15 * binomial_n_5 (S - 47) - 6 * binomial_n_5 (S - 60)
     + binomial_n_5 (S - 73)"
  using choose_6 by (simp add: ways_full_def upt_7)


lemma binomial_shift_bridge:
  fixes S :: int32 and c :: int
  assumes "0 \<le> sint S" "sint S \<le> 6205" "- 100 \<le> c" "c \<le> 5"
  shows "binomial_n_5 (S + word_of_int c) = word_of_int (binomial_n_5_exact (sint S + c))"
proof -
  have "S + word_of_int c = word_of_int (sint S + c)"
    by simp
  moreover have "sint (word_of_int (sint S + c) :: int32) = sint S + c"
    using assms by (intro sint_of_int32) simp_all
  ultimately have "sint (S + word_of_int c) = sint S + c"
    by simp
  then show ?thesis
    using binomial_bridge [of "S + word_of_int c"] assms by simp
qed

lemma ways_full_bridge:
  fixes S :: int32
  assumes "0 \<le> sint S" "sint S \<le> 6205"
  shows "ways_full S = word_of_int
     (binomial_n_5_exact (sint S + 5) - 6 * binomial_n_5_exact (sint S - 8)
      + 15 * binomial_n_5_exact (sint S - 21) - 20 * binomial_n_5_exact (sint S - 34)
      + 15 * binomial_n_5_exact (sint S - 47) - 6 * binomial_n_5_exact (sint S - 60)
      + binomial_n_5_exact (sint S - 73))"
  using binomial_shift_bridge [OF assms, of 5] binomial_shift_bridge [OF assms, of "- 8"]
    binomial_shift_bridge [OF assms, of "- 21"] binomial_shift_bridge [OF assms, of "- 34"]
    binomial_shift_bridge [OF assms, of "- 47"] binomial_shift_bridge [OF assms, of "- 60"]
    binomial_shift_bridge [OF assms, of "- 73"]
  by (simp add: ways_full_unrolled)

lemma ways_exact_full_all:
  "list_all (\<lambda>i. ways_for_sum_exact i =
      binomial_n_5_exact (i + 5) - 6 * binomial_n_5_exact (i - 8)
      + 15 * binomial_n_5_exact (i - 21) - 20 * binomial_n_5_exact (i - 34)
      + 15 * binomial_n_5_exact (i - 47) - 6 * binomial_n_5_exact (i - 60)
      + binomial_n_5_exact (i - 73)) [0..72]"
  by code_simp

lemma sint_of_nat_small:
  fixes n :: nat
  assumes "n \<le> 100"
  shows "sint (of_nat n :: int32) = int n"
proof -
  have "(of_nat n :: int32) = word_of_int (int n)" by simp
  moreover have "sint (word_of_int (int n) :: int32) = int n"
    using assms by (intro sint_of_int32) simp_all
  ultimately show ?thesis by simp
qed

text \<open>
  Claim C2: for every \<open>S\<close> from 0 to 72 the loop with its early exit returns the value
  of the full sum of seven terms, and the exit drops only zeros: once the argument
  \<open>S - 13 * k + 5\<close> is below 5 at some \<open>k\<close>, \<open>binomial_n_5\<close> is 0 at that and at every
  later index \<open>j\<close> up to 6.
\<close>

theorem ways_for_sum_refines_full:
  fixes S :: int32 and k j :: nat
  assumes "0 \<le> sint S" "sint S \<le> 72"
  shows "ways_for_sum S = ways_full S \<and>
         (k \<le> j \<and> j \<le> 6 \<and> S - kBase * of_nat k + 5 <s 5
            \<longrightarrow> binomial_n_5 (S - kBase * of_nat j + 5) = 0)"
proof (intro conjI impI)
  have "sint S \<in> {0..72}" using assms by simp
  then have "sint S \<in> set [0..72]" by (simp only: set_upto)
  then have "ways_for_sum_exact (sint S) =
      binomial_n_5_exact (sint S + 5) - 6 * binomial_n_5_exact (sint S - 8)
      + 15 * binomial_n_5_exact (sint S - 21) - 20 * binomial_n_5_exact (sint S - 34)
      + 15 * binomial_n_5_exact (sint S - 47) - 6 * binomial_n_5_exact (sint S - 60)
      + binomial_n_5_exact (sint S - 73)"
    using ways_exact_full_all unfolding list_all_iff by blast
  moreover have "ways_for_sum S = word_of_int (ways_for_sum_exact (sint S))"
    using assms by (intro ways_bridge) simp_all
  moreover have "sint S \<le> 6205" using assms by simp
  ultimately show "ways_for_sum S = ways_full S"
    using ways_full_bridge [OF assms(1)] by simp
next
  assume h: "k \<le> j \<and> j \<le> 6 \<and> S - kBase * of_nat k + 5 <s 5"
  then have kj: "k \<le> 6" "j \<le> 6" "k \<le> j" by simp_all
  have sk: "sint (of_nat k :: int32) = int k" "sint (of_nat j :: int32) = int j"
    using kj by (simp_all add: sint_of_nat_small)
  have S: "sint S \<le> 6205" using assms by simp
  have ak: "sint (S - kBase * of_nat k + 5) = sint S - 13 * int k + 5"
    using arg_sint [OF assms(1) S, of "of_nat k"] kj unfolding sk by simp
  have aj: "sint (S - kBase * of_nat j + 5) = sint S - 13 * int j + 5"
    using arg_sint [OF assms(1) S, of "of_nat j"] kj unfolding sk by simp
  from h have "sint S - 13 * int k + 5 < 5"
    by (simp add: word_sless_alt ak)
  then have "sint S - 13 * int j + 5 < 5"
    using kj(3) by simp
  then have "S - kBase * of_nat j + 5 <s 5"
    by (simp add: word_sless_alt aj)
  then show "binomial_n_5 (S - kBase * of_nat j + 5) = 0"
    by (simp add: binomial_n_5_def)
qed

theorem ways_for_sum_refines_full_witness:
  "0 \<le> sint (30 :: int32) \<and> sint (30 :: int32) \<le> 72 \<and> ways_for_sum 30 = ways_full 30 \<and>
   (3 :: nat) \<le> 4 \<and> (4 :: nat) \<le> 6 \<and> (30 :: int32) - kBase * of_nat 3 + 5 <s 5 \<and>
   binomial_n_5 ((30 :: int32) - kBase * of_nat 4 + 5) = 0"
  using ways_for_sum_refines_full [of 30 3 4]
  by (simp add: kBase_def word_sless_alt)

lemma ways_exact_symmetric_all:
  "list_all (\<lambda>i. ways_for_sum_exact i = ways_for_sum_exact (72 - i)) [0..72]"
  by code_simp

text \<open>
  Claim C4: \<open>ways_for_sum S = ways_for_sum (72 - S)\<close> for every \<open>S\<close> from 0 to 72.
\<close>

theorem ways_for_sum_symmetric:
  fixes S :: int32
  assumes "0 \<le> sint S" "sint S \<le> 72"
  shows "ways_for_sum S = ways_for_sum (72 - S)"
proof -
  have "72 - S = word_of_int (72 - sint S)"
    by simp
  moreover have "sint (word_of_int (72 - sint S) :: int32) = 72 - sint S"
    using assms by (intro sint_of_int32) simp_all
  ultimately have m: "sint (72 - S) = 72 - sint S"
    by simp
  have "sint S \<in> {0..72}" using assms by simp
  then have "sint S \<in> set [0..72]" by (simp only: set_upto)
  then have e: "ways_for_sum_exact (sint S) = ways_for_sum_exact (72 - sint S)"
    using ways_exact_symmetric_all unfolding list_all_iff by blast
  have "ways_for_sum S = word_of_int (ways_for_sum_exact (sint S))"
    using assms by (intro ways_bridge) simp_all
  moreover have "ways_for_sum (72 - S) = word_of_int (ways_for_sum_exact (sint (72 - S)))"
    using assms unfolding m by (intro ways_bridge [of "72 - S", unfolded m]) simp_all
  ultimately show ?thesis
    unfolding m e by simp
qed

theorem ways_for_sum_symmetric_witness:
  "0 \<le> sint (30 :: int32) \<and> sint (30 :: int32) \<le> 72 \<and> ways_for_sum 30 = ways_for_sum 42"
  using ways_for_sum_symmetric [of 30] by simp

text \<open>
  Claim C8: at both ends of the range of half-sums the count is 1.
\<close>

theorem ways_for_sum_boundary:
  "ways_for_sum 0 = 1 \<and> ways_for_sum 72 = 1"
  by code_simp

lemma ways_exact_total: "(\<Sum>n\<leftarrow>[0..<73]. ways_for_sum_exact (int n)) = 4826809"
  by code_simp

text \<open>
  Claim C5: the values of \<open>ways_for_sum\<close> at \<open>S = 0, ..., 72\<close>, read as integers, add up
  to \<open>13^6 = 4826809\<close>.
\<close>

theorem ways_for_sum_total:
  "(\<Sum>n\<leftarrow>[0..<73]. sint (ways_for_sum (of_nat n))) = 13 ^ 6 \<and> (13 :: int) ^ 6 = 4826809"
proof -
  have e: "sint (ways_for_sum (of_nat n)) = ways_for_sum_exact (int n)" if "n \<in> set [0..<73]" for n
  proof -
    from that have "n \<le> 72" by simp
    then have "sint (of_nat n :: int32) = int n"
      by (intro sint_of_nat_small) simp
    then show ?thesis
      using ways_sint [of "of_nat n"] \<open>n \<le> 72\<close> by simp
  qed
  have "(\<Sum>n\<leftarrow>[0..<73]. sint (ways_for_sum (of_nat n)))
          = (\<Sum>n\<leftarrow>[0..<73]. ways_for_sum_exact (int n))"
    using e by (intro arg_cong [where f = sum_list] map_cong) simp_all
  then show ?thesis
    by (simp add: ways_exact_total)
qed

section \<open>The lookup table \<open>kWays\<close>\<close>

lemma sint_succ_int32:
  fixes s :: int32
  assumes "0 \<le> sint s" "sint s \<le> 100"
  shows "sint (s + 1) = sint s + 1"
proof -
  have "s + 1 = word_of_int (sint s + 1)" by simp
  moreover have "sint (word_of_int (sint s + 1) :: int32) = sint s + 1"
    using assms by (intro sint_of_int32) simp_all
  ultimately show ?thesis by simp
qed

lemma of_nat_nat_sint:
  fixes s :: int32
  assumes "0 \<le> sint s"
  shows "of_nat (nat (sint s)) = s"
proof -
  have "(of_nat (nat (sint s)) :: int32) = word_of_int (sint s)"
    using assms by (simp del: of_int_sint)
  then show ?thesis by simp
qed

lemma build_loop_inv:
  fixes s :: int32 and table :: "int64 list"
  assumes "0 \<le> sint s" "sint s \<le> 73" "length table = 73"
  shows "build_loop s table
           = take (nat (sint s)) table @ map (\<lambda>n. ways_for_sum (of_nat n)) [nat (sint s)..<73]"
  using assms
proof (induction "nat (73 - sint s)" arbitrary: s table)
  case 0
  then have e: "sint s = 73" by simp
  then have "\<not> s \<le>s kMaxSum" by (simp add: word_sle_eq kMaxSum_def kBase_def kDigits_def)
  then have "build_loop s table = table"
    by (simp add: build_loop.simps [of s])
  then show ?case
    using e "0.prems"(3) by simp
next
  case (Suc j)
  define n where "n = nat (sint s)"
  have s72: "sint s \<le> 72" using Suc.hyps(2) by simp
  have s0: "0 \<le> sint s" by (rule Suc.prems(1))
  have n: "n < 73" "unat s = n" "of_nat n = s"
    using s72 s0 by (simp_all add: n_def unat_nonneg_int32 of_nat_nat_sint)
  have le: "s \<le>s kMaxSum"
    using s72 by (simp add: word_sle_eq kMaxSum_def kBase_def kDigits_def)
  have sk: "sint (s + 1) = sint s + 1"
    using s0 s72 by (intro sint_succ_int32) simp_all
  then have n1: "nat (sint (s + 1)) = Suc n"
    using s0 by (simp add: n_def)
  have j: "j = nat (73 - sint (s + 1))"
    using Suc.hyps(2) sk by simp
  have len: "length (table[n := ways_for_sum s]) = 73"
    using Suc.prems(3) by simp
  have "build_loop s table = build_loop (s + 1) (table[n := ways_for_sum s])"
    using le by (simp add: build_loop.simps [of s] n(2))
  also have "\<dots> = take (Suc n) (table[n := ways_for_sum s])
                    @ map (\<lambda>n. ways_for_sum (of_nat n)) [Suc n..<73]"
    using Suc.hyps(1) [OF j _ _ len] sk s0 s72 unfolding n1 by simp
  also have "take (Suc n) (table[n := ways_for_sum s]) = take n table @ [ways_for_sum s]"
    using n(1) Suc.prems(3) by (simp add: take_Suc_conv_app_nth)
  also have "(take n table @ [ways_for_sum s]) @ map (\<lambda>n. ways_for_sum (of_nat n)) [Suc n..<73]
      = take n table @ map (\<lambda>n. ways_for_sum (of_nat n)) [n..<73]"
    using n(1,3) by (simp add: upt_conv_Cons)
  finally show ?case unfolding n_def .
qed

lemma kWays_eq: "kWays = map (\<lambda>n. ways_for_sum (of_nat n)) [0..<73]"
proof -
  have "unat (kMaxSum + 1) = 73"
    by (simp add: kMaxSum_def kBase_def kDigits_def)
  then show ?thesis
    using build_loop_inv [of 0 "replicate 73 0"]
    by (simp add: kWays_def build_ways_lookup_table_def)
qed

lemma kWays_nth:
  fixes n :: nat
  assumes "n < 73"
  shows "kWays ! n = ways_for_sum (of_nat n)"
  using assms by (simp add: kWays_eq del: upt_Suc)

text \<open>
  Claim C3: \<open>kWays\<close> is the value returned by the finished build loop; it has 73 entries,
  and the entry at every index \<open>S\<close> from 0 to 72 is \<open>ways_for_sum S\<close>.  The loop writes
  all 73 entries: its result does not depend on what the array held before.  \<open>kWays\<close> is
  a constant, so \<open>count_beautiful_numbers\<close> can only read the finished table and nothing
  can change it.
\<close>

theorem kWays_table:
  fixes S :: int32 and table :: "int64 list"
  shows "length kWays = 73 \<and> kWays = build_ways_lookup_table \<and>
         (0 \<le> sint S \<and> sint S \<le> 72 \<longrightarrow> kWays ! unat S = ways_for_sum S) \<and>
         (length table = 73 \<longrightarrow> build_loop 0 table = kWays)"
proof (intro conjI impI)
  show "length kWays = 73" by (simp add: kWays_eq)
  show "kWays = build_ways_lookup_table" by (rule kWays_def)
next
  assume r: "0 \<le> sint S \<and> sint S \<le> 72"
  then have "unat S = nat (sint S)" "of_nat (nat (sint S)) = S"
    by (simp_all add: unat_nonneg_int32 of_nat_nat_sint)
  moreover from r have "nat (sint S) < 73"
    by linarith
  ultimately show "kWays ! unat S = ways_for_sum S"
    using kWays_nth [of "nat (sint S)"] by simp
next
  assume "length table = 73"
  then show "build_loop 0 table = kWays"
    using build_loop_inv [of 0 table] by (simp add: kWays_eq)
qed

theorem kWays_table_witness:
  "0 \<le> sint (36 :: int32) \<and> sint (36 :: int32) \<le> 72 \<and> kWays ! 36 = ways_for_sum 36 \<and>
   length (replicate 73 (5 :: int64)) = 73 \<and> build_loop 0 (replicate 73 5) = kWays"
  using kWays_table [of 36 "replicate 73 5", THEN conjunct2, THEN conjunct2] by simp

section \<open>The total \<open>count_beautiful_numbers\<close>\<close>

lemma count_loop_inv:
  fixes s :: int32 and tot :: int64
  assumes "0 \<le> sint s" "sint s \<le> 73"
  shows "count_loop s tot = tot + (\<Sum>n\<leftarrow>[nat (sint s)..<73]. 13 * (kWays ! n) * (kWays ! n))"
  using assms
proof (induction "nat (73 - sint s)" arbitrary: s tot)
  case 0
  then have e: "sint s = 73" by simp
  then have "\<not> s \<le>s kMaxSum" by (simp add: word_sle_eq kMaxSum_def kBase_def kDigits_def)
  then have "count_loop s tot = tot"
    by (simp add: count_loop.simps [of s])
  then show ?case
    using e by simp
next
  case (Suc j)
  define n where "n = nat (sint s)"
  have s72: "sint s \<le> 72" using Suc.hyps(2) by simp
  have s0: "0 \<le> sint s" by (rule Suc.prems(1))
  have n: "n < 73" "unat s = n"
    using s72 s0 by (simp_all add: n_def unat_nonneg_int32)
  have le: "s \<le>s kMaxSum"
    using s72 by (simp add: word_sle_eq kMaxSum_def kBase_def kDigits_def)
  have sk: "sint (s + 1) = sint s + 1"
    using s0 s72 by (intro sint_succ_int32) simp_all
  then have n1: "nat (sint (s + 1)) = Suc n"
    using s0 by (simp add: n_def)
  have j: "j = nat (73 - sint (s + 1))"
    using Suc.hyps(2) sk by simp
  have "count_loop s tot = count_loop (s + 1) (tot + 13 * (kWays ! n) * (kWays ! n))"
    using le by (simp add: count_loop.simps [of s] n(2) kBase_def)
  also have "\<dots> = tot + 13 * (kWays ! n) * (kWays ! n)
                    + (\<Sum>n\<leftarrow>[Suc n..<73]. 13 * (kWays ! n) * (kWays ! n))"
    using Suc.hyps(1) [OF j] sk s0 s72 unfolding n1 by simp
  also have "\<dots> = tot + (\<Sum>n\<leftarrow>[n..<73]. 13 * (kWays ! n) * (kWays ! n))"
    using n(1) by (simp add: upt_conv_Cons)
  finally show ?case unfolding n_def .
qed

lemma count_eq_kWays_sum:
  "count_beautiful_numbers = (\<Sum>n\<leftarrow>[0..<73]. 13 * (kWays ! n) * (kWays ! n))"
  using count_loop_inv [of 0 0] by (simp add: count_beautiful_numbers_def)

lemma ways_of_nat_bridge:
  fixes n :: nat
  assumes "n < 73"
  shows "ways_for_sum (of_nat n) = word_of_int (ways_for_sum_exact (int n))"
    and "sint (ways_for_sum (of_nat n)) = ways_for_sum_exact (int n)"
proof -
  have s: "sint (of_nat n :: int32) = int n"
    using assms by (intro sint_of_nat_small) simp
  show "ways_for_sum (of_nat n) = word_of_int (ways_for_sum_exact (int n))"
    using ways_bridge [of "of_nat n"] assms unfolding s by simp
  show "sint (ways_for_sum (of_nat n)) = ways_for_sum_exact (int n)"
    using ways_sint [of "of_nat n"] assms unfolding s by simp
qed

lemma of_int_sum_list:
  "(word_of_int (sum_list (map f xs)) :: int64) = sum_list (map (\<lambda>x. word_of_int (f x)) xs)"
  by (induction xs) simp_all

lemma partial_word_bridge:
  fixes j :: nat
  assumes "j \<le> 73"
  shows "(\<Sum>s\<leftarrow>[0..<j]. scast kBase * (kWays ! s) * (kWays ! s)) = word_of_int (partial_total_exact j)"
proof -
  have "(scast kBase :: int64) * (kWays ! s) * (kWays ! s)
          = word_of_int (13 * ways_for_sum_exact (int s) * ways_for_sum_exact (int s))"
    if "s \<in> set [0..<j]" for s
  proof -
    from that assms have "s < 73" by simp
    then show ?thesis
      by (simp add: kWays_nth ways_of_nat_bridge(1) kBase_def)
  qed
  then have "(\<Sum>s\<leftarrow>[0..<j]. scast kBase * (kWays ! s) * (kWays ! s))
      = (\<Sum>s\<leftarrow>[0..<j]. word_of_int (13 * ways_for_sum_exact (int s) * ways_for_sum_exact (int s)))"
    by (intro arg_cong [where f = sum_list] map_cong) simp_all
  then show ?thesis
    unfolding partial_total_exact_def of_int_sum_list .
qed

lemma partial_total_Suc:
  "partial_total_exact (Suc j)
     = partial_total_exact j + 13 * ways_for_sum_exact (int j) * ways_for_sum_exact (int j)"
  by (simp add: partial_total_exact_def)

lemma partial_total_mono:
  assumes "j \<le> k"
  shows "partial_total_exact j \<le> partial_total_exact k"
  using assms
proof (induction k)
  case 0
  then show ?case by simp
next
  case (Suc k)
  have "0 \<le> 13 * (ways_for_sum_exact (int k) * ways_for_sum_exact (int k))"
    by simp
  then have "partial_total_exact k \<le> partial_total_exact (Suc k)"
    unfolding partial_total_Suc by (simp add: mult.assoc)
  then show ?case
    using Suc by (cases "j = Suc k") simp_all
qed

lemma count_exact_value: "count_beautiful_numbers_exact = 9203637295151"
  by code_simp

lemma partial_total_range:
  assumes "j \<le> 73"
  shows "0 \<le> partial_total_exact j" "partial_total_exact j \<le> 9203637295151"
proof -
  have "partial_total_exact 0 = 0" by (simp add: partial_total_exact_def)
  then show "0 \<le> partial_total_exact j"
    using partial_total_mono [of 0 j] by simp
  show "partial_total_exact j \<le> 9203637295151"
    using partial_total_mono [OF assms] count_exact_value
    by (simp add: count_beautiful_numbers_exact_def)
qed

lemma count_bridge: "count_beautiful_numbers = word_of_int count_beautiful_numbers_exact"
  using partial_word_bridge [of 73]
  by (simp add: count_eq_kWays_sum count_beautiful_numbers_exact_def kBase_def del: upt_Suc)

text \<open>
  Claim C1: \<open>count_beautiful_numbers\<close> is the sum of \<open>13 * N(S)^2\<close> over
  \<open>S = 0, ..., 72\<close>, both ends included, with \<open>N(S) = ways_for_sum S\<close>, and equally with
  \<open>N(S) = kWays[S]\<close>; the same holds for the signed values over the integers.
\<close>

theorem count_beautiful_numbers_sum:
  "count_beautiful_numbers = (\<Sum>S\<leftarrow>[0..<73]. 13 * (ways_for_sum (of_nat S))\<^sup>2) \<and>
   count_beautiful_numbers = (\<Sum>S\<leftarrow>[0..<73]. 13 * (kWays ! S)\<^sup>2) \<and>
   sint count_beautiful_numbers = (\<Sum>S\<leftarrow>[0..<73]. 13 * (sint (ways_for_sum (of_nat S)))\<^sup>2)"
proof (intro conjI)
  have k: "count_beautiful_numbers = (\<Sum>S\<leftarrow>[0..<73]. 13 * (kWays ! S) * (kWays ! S))"
    by (rule count_eq_kWays_sum)
  then show 2: "count_beautiful_numbers = (\<Sum>S\<leftarrow>[0..<73]. 13 * (kWays ! S)\<^sup>2)"
    by (simp add: power2_eq_square mult.assoc del: upt_Suc)
  have "(\<Sum>S\<leftarrow>[0..<73]. 13 * (kWays ! S)\<^sup>2) = (\<Sum>S\<leftarrow>[0..<73]. 13 * (ways_for_sum (of_nat S))\<^sup>2)"
    by (intro arg_cong [where f = sum_list] map_cong) (simp_all add: kWays_nth del: upt_Suc)
  then show "count_beautiful_numbers = (\<Sum>S\<leftarrow>[0..<73]. 13 * (ways_for_sum (of_nat S))\<^sup>2)"
    using 2 by simp
  have "sint (word_of_int count_beautiful_numbers_exact :: int64) = count_beautiful_numbers_exact"
    unfolding count_exact_value by (intro sint_of_int64) simp_all
  then have "sint count_beautiful_numbers = partial_total_exact 73"
    by (simp add: count_bridge count_beautiful_numbers_exact_def del: upt_Suc)
  also have "\<dots> = (\<Sum>S\<leftarrow>[0..<73]. 13 * (sint (ways_for_sum (of_nat S)))\<^sup>2)"
    unfolding partial_total_exact_def
    by (intro arg_cong [where f = sum_list] map_cong)
      (simp_all add: ways_of_nat_bridge(2) power2_eq_square mult.assoc del: upt_Suc)
  finally show "sint count_beautiful_numbers = (\<Sum>S\<leftarrow>[0..<73]. 13 * (sint (ways_for_sum (of_nat S)))\<^sup>2)" .
qed

section \<open>Absence of overflow\<close>

lemma prod_prefix_bound:
  fixes m :: int
  assumes "5 \<le> m" "m \<le> 77"
  shows "0 \<le> m * (m - 1) \<and> m * (m - 1) \<le> 2370937800"
    and "0 \<le> m * (m - 1) * (m - 2) \<and> m * (m - 1) * (m - 2) \<le> 2370937800"
    and "0 \<le> m * (m - 1) * (m - 2) * (m - 3) \<and> m * (m - 1) * (m - 2) * (m - 3) \<le> 2370937800"
    and "0 \<le> m * (m - 1) * (m - 2) * (m - 3) * (m - 4)
         \<and> m * (m - 1) * (m - 2) * (m - 3) * (m - 4) \<le> 2370937800"
proof -
  have a: "m * (m - 1) \<le> 77 * 76"
    using assms by (intro mult_mono) simp_all
  have b: "m * (m - 1) * (m - 2) \<le> 77 * 76 * 75"
    using assms a by (intro mult_mono) simp_all
  have c: "m * (m - 1) * (m - 2) * (m - 3) \<le> 77 * 76 * 75 * 74"
    using assms b by (intro mult_mono) simp_all
  have d: "m * (m - 1) * (m - 2) * (m - 3) * (m - 4) \<le> 77 * 76 * 75 * 74 * 73"
    using assms c by (intro mult_mono) simp_all
  show "0 \<le> m * (m - 1) \<and> m * (m - 1) \<le> 2370937800"
    using assms a by simp
  show "0 \<le> m * (m - 1) * (m - 2) \<and> m * (m - 1) * (m - 2) \<le> 2370937800"
    using assms b by simp
  show "0 \<le> m * (m - 1) * (m - 2) * (m - 3) \<and> m * (m - 1) * (m - 2) * (m - 3) \<le> 2370937800"
    using assms c by simp
  show "0 \<le> m * (m - 1) * (m - 2) * (m - 3) * (m - 4)
         \<and> m * (m - 1) * (m - 2) * (m - 3) * (m - 4) \<le> 2370937800"
    using assms d by simp
qed

lemma prod5_word_sint:
  fixes n :: int32
  assumes "5 \<le> sint n" "sint n \<le> 6210"
  shows "sint ((scast n :: int64) * (scast n - 1) * (scast n - 2) * (scast n - 3) * (scast n - 4))
           = sint n * (sint n - 1) * (sint n - 2) * (sint n - 3) * (sint n - 4)"
proof -
  let ?m = "sint n"
  let ?p = "?m * (?m - 1) * (?m - 2) * (?m - 3) * (?m - 4)"
  have pw: "(scast n :: int64) * (scast n - 1) * (scast n - 2) * (scast n - 3) * (scast n - 4)
      = word_of_int ?p"
    unfolding scast_eq by (simp del: of_int_sint)
  have sp: "sint (word_of_int ?p :: int64) = ?p"
    using prod5_bound [OF assms] by (intro sint_of_int64) simp_all
  show ?thesis
    unfolding pw sp ..
qed

lemma count_loop_restart:
  fixes j :: nat
  assumes "j \<le> 73"
  shows "count_loop (of_nat j) (\<Sum>s\<leftarrow>[0..<j]. scast kBase * (kWays ! s) * (kWays ! s))
           = count_beautiful_numbers"
proof -
  have s: "sint (of_nat j :: int32) = int j"
    using assms by (intro sint_of_nat_small) simp
  have u: "[0..<73] = [0..<j] @ [j..<73]"
    using assms upt_add_eq_append [of 0 j "73 - j"] by simp
  have "count_loop (of_nat j) (\<Sum>s\<leftarrow>[0..<j]. scast kBase * (kWays ! s) * (kWays ! s))
          = (\<Sum>s\<leftarrow>[0..<j]. 13 * (kWays ! s) * (kWays ! s))
            + (\<Sum>n\<leftarrow>[j..<73]. 13 * (kWays ! n) * (kWays ! n))"
    using count_loop_inv [of "of_nat j"] assms unfolding s by (simp add: kBase_def)
  also have "\<dots> = (\<Sum>n\<leftarrow>[0..<73]. 13 * (kWays ! n) * (kWays ! n))"
    unfolding u by simp
  finally show ?thesis
    by (simp only: count_eq_kWays_sum)
qed

text \<open>
  Claim C9: nothing overflows.  For every \<open>n\<close> from 5 to 77 each product formed in
  \<open>binomial_n_5\<close> lies in \<open>[0, 2^63)\<close>, and the \<open>int64_t\<close> product and quotient are the
  exact ones.  For every \<open>S\<close> from 0 to 72 and \<open>k\<close> up to 6 the argument
  \<open>S - 13 * k + 5\<close> is computed without wrap-around and is at most 77, and
  \<open>ways_for_sum S\<close> is the exact value.  On entering iteration \<open>j\<close> of
  \<open>count_beautiful_numbers\<close> the running total is the exact partial sum, which lies in
  \<open>[0, 2^63)\<close>; the value returned is the exact total 9203637295151.
\<close>

theorem int64_arithmetic_exact:
  fixes n S :: int32 and j k :: nat
  shows
    "(5 \<le> sint n \<and> sint n \<le> 77 \<longrightarrow>
        (0 \<le> sint n * (sint n - 1) \<and> sint n * (sint n - 1) < 2 ^ 63) \<and>
        (0 \<le> sint n * (sint n - 1) * (sint n - 2)
           \<and> sint n * (sint n - 1) * (sint n - 2) < 2 ^ 63) \<and>
        (0 \<le> sint n * (sint n - 1) * (sint n - 2) * (sint n - 3)
           \<and> sint n * (sint n - 1) * (sint n - 2) * (sint n - 3) < 2 ^ 63) \<and>
        (0 \<le> sint n * (sint n - 1) * (sint n - 2) * (sint n - 3) * (sint n - 4)
           \<and> sint n * (sint n - 1) * (sint n - 2) * (sint n - 3) * (sint n - 4) < 2 ^ 63) \<and>
        sint ((scast n :: int64) * (scast n - 1) * (scast n - 2) * (scast n - 3) * (scast n - 4))
          = sint n * (sint n - 1) * (sint n - 2) * (sint n - 3) * (sint n - 4) \<and>
        sint (binomial_n_5 n) = binomial_n_5_exact (sint n)) \<and>
     (0 \<le> sint S \<and> sint S \<le> 72 \<and> k \<le> 6 \<longrightarrow>
        sint (S - kBase * of_nat k + 5) = sint S - 13 * int k + 5 \<and>
        sint S - 13 * int k + 5 \<le> 77 \<and>
        sint (ways_for_sum S) = ways_for_sum_exact (sint S)) \<and>
     (j \<le> 73 \<longrightarrow>
        0 \<le> partial_total_exact j \<and> partial_total_exact j < 2 ^ 63 \<and>
        sint (\<Sum>s\<leftarrow>[0..<j]. scast kBase * (kWays ! s) * (kWays ! s)) = partial_total_exact j \<and>
        count_loop (of_nat j) (\<Sum>s\<leftarrow>[0..<j]. scast kBase * (kWays ! s) * (kWays ! s))
          = count_beautiful_numbers) \<and>
     sint count_beautiful_numbers = count_beautiful_numbers_exact \<and>
     count_beautiful_numbers_exact = 9203637295151 \<and>
     count_beautiful_numbers_exact < 2 ^ 63"
proof (intro conjI impI)
  assume r: "5 \<le> sint n \<and> sint n \<le> 77"
  then have r1: "5 \<le> sint n" and r2: "sint n \<le> 77" and r3: "sint n \<le> 6210"
    by simp_all
  note b = prod_prefix_bound [OF r1 r2]
  show "0 \<le> sint n * (sint n - 1)" using b(1) by simp
  show "sint n * (sint n - 1) < 2 ^ 63" using b(1) by simp
  show "0 \<le> sint n * (sint n - 1) * (sint n - 2)" using b(2) by simp
  show "sint n * (sint n - 1) * (sint n - 2) < 2 ^ 63" using b(2) by simp
  show "0 \<le> sint n * (sint n - 1) * (sint n - 2) * (sint n - 3)" using b(3) by simp
  show "sint n * (sint n - 1) * (sint n - 2) * (sint n - 3) < 2 ^ 63" using b(3) by simp
  show "0 \<le> sint n * (sint n - 1) * (sint n - 2) * (sint n - 3) * (sint n - 4)"
    using b(4) by simp
  show "sint n * (sint n - 1) * (sint n - 2) * (sint n - 3) * (sint n - 4) < 2 ^ 63"
    using b(4) by simp
  show "sint ((scast n :: int64) * (scast n - 1) * (scast n - 2) * (scast n - 3) * (scast n - 4))
          = sint n * (sint n - 1) * (sint n - 2) * (sint n - 3) * (sint n - 4)"
    using r1 r3 by (rule prod5_word_sint)
  show "sint (binomial_n_5 n) = binomial_n_5_exact (sint n)"
    using r1 r3 by (rule binomial_sint)
next
  assume r: "0 \<le> sint S \<and> sint S \<le> 72 \<and> k \<le> 6"
  then have S: "0 \<le> sint S" "sint S \<le> 72" "sint S \<le> 6205" and k: "k \<le> 6"
    by simp_all
  have sk: "sint (of_nat k :: int32) = int k"
    using k by (intro sint_of_nat_small) simp
  show "sint (S - kBase * of_nat k + 5) = sint S - 13 * int k + 5"
    using arg_sint [OF S(1) S(3), of "of_nat k"] k unfolding sk by simp
  show "sint S - 13 * int k + 5 \<le> 77"
    using S(2) by simp
  show "sint (ways_for_sum S) = ways_for_sum_exact (sint S)"
    using S(1,2) by (rule ways_sint)
next
  assume j: "j \<le> 73"
  show "0 \<le> partial_total_exact j"
    using j by (rule partial_total_range(1))
  show lt: "partial_total_exact j < 2 ^ 63"
    using partial_total_range(2) [OF j] by simp
  have "sint (word_of_int (partial_total_exact j) :: int64) = partial_total_exact j"
    using partial_total_range(1) [OF j] lt by (intro sint_of_int64) simp_all
  then show "sint (\<Sum>s\<leftarrow>[0..<j]. scast kBase * (kWays ! s) * (kWays ! s)) = partial_total_exact j"
    by (simp only: partial_word_bridge [OF j])
  show "count_loop (of_nat j) (\<Sum>s\<leftarrow>[0..<j]. scast kBase * (kWays ! s) * (kWays ! s))
          = count_beautiful_numbers"
    using j by (rule count_loop_restart)
next
  have "sint (word_of_int count_beautiful_numbers_exact :: int64) = count_beautiful_numbers_exact"
    unfolding count_exact_value by (intro sint_of_int64) simp_all
  then show "sint count_beautiful_numbers = count_beautiful_numbers_exact"
    by (simp only: count_bridge)
  show "count_beautiful_numbers_exact = 9203637295151"
    by (rule count_exact_value)
  show "count_beautiful_numbers_exact < 2 ^ 63"
    unfolding count_exact_value by simp
qed

theorem int64_arithmetic_exact_witness:
  "5 \<le> sint (77 :: int32) \<and> sint (77 :: int32) \<le> 77 \<and>
   sint (binomial_n_5 77) = binomial_n_5_exact 77 \<and>
   0 \<le> sint (72 :: int32) \<and> sint (72 :: int32) \<le> 72 \<and> (0 :: nat) \<le> 6 \<and>
   sint (ways_for_sum 72) = ways_for_sum_exact 72 \<and>
   (73 :: nat) \<le> 73 \<and> partial_total_exact 73 < 2 ^ 63"
  using int64_arithmetic_exact [of 77 72 0 73] by simp

end
